theory Spec2Isabelle
  imports Complex_Main
begin

section \<open>Strings\<close>

text \<open>
  A Python \<open>str\<close> is a sequence of Unicode code points. It is modelled as the list of
  its code points, so that \<open>length\<close>, slicing and comparison count what Python counts.
  \<open>str\<close> turns an ASCII literal into that representation.
\<close>

type_synonym pystr = "nat list"

definition str :: "string \<Rightarrow> pystr" where
  "str s = map of_char s"

text \<open>\<open>s.startswith(p)\<close> and \<open>s.endswith(p)\<close>.\<close>

definition startswith :: "pystr \<Rightarrow> pystr \<Rightarrow> bool" where
  "startswith s p = (take (length p) s = p)"

definition endswith :: "pystr \<Rightarrow> pystr \<Rightarrow> bool" where
  "endswith s p = (length p \<le> length s \<and> drop (length s - length p) s = p)"

section \<open>Domain cleaning\<close>

text \<open>
  \<^verbatim>\<open>
  def clean_domain(domain):
      if domain.startswith('www.'):
          domain = domain[4:]
      if domain.endswith('.'):
          domain = domain[:-1]
      return domain
  \<close>
  The slice \<open>domain[4:]\<close> drops four code points; \<open>domain[:-1]\<close> keeps all but the
  last one. Each test is made once, the second on the result of the first.
\<close>

definition clean_domain :: "pystr \<Rightarrow> pystr" where
  "clean_domain domain =
     (let domain = (if startswith domain (str ''www.'') then drop 4 domain else domain);
          domain = (if endswith domain (str ''.'') then take (length domain - 1) domain
                    else domain)
      in domain)"

section \<open>Domain validation\<close>

text \<open>
  \<^verbatim>\<open>
  def is_valid_domain(domain):
      pattern = re.compile(
          r'^(?!:\/\/)([a-zA-Z0-9-_]+\.)+[a-zA-Z]{2,15}$',
          re.IGNORECASE
      )
      return re.match(pattern, domain) is not None
  \<close>
  The pattern is a \<open>str\<close> pattern compiled with \<open>re.IGNORECASE\<close>, so the ranges
  \<open>a-z\<close> and \<open>A-Z\<close> match the 52 ASCII letters and the four code points whose case
  folding lands in them: U+0130 (304), U+0131 (305), U+017F (383) and U+212A (8490).
  In the class \<open>[a-zA-Z0-9-_]\<close> the hyphen follows a complete range and is a literal.
\<close>

definition alpha_class :: "nat \<Rightarrow> bool" where
  "alpha_class c = ((97 \<le> c \<and> c \<le> 122) \<or> (65 \<le> c \<and> c \<le> 90)
                    \<or> c = 304 \<or> c = 305 \<or> c = 383 \<or> c = 8490)"

definition word_class :: "nat \<Rightarrow> bool" where
  "word_class c = (alpha_class c \<or> (48 \<le> c \<and> c \<le> 57) \<or> c = 45 \<or> c = 95)"

text \<open>
  \<open>$\<close> without \<open>re.MULTILINE\<close> matches at the end of the string and also just before
  a line feed (code point 10) that is the last character of the string.
\<close>

definition at_dollar :: "pystr \<Rightarrow> bool" where
  "at_dollar s = (s = [] \<or> s = [10])"

text \<open>
  \<open>[a-zA-Z]{2,15}$\<close> at the current position. The repetition is greedy; giving a
  letter back never helps, since \<open>$\<close> does not match in front of a letter. So the
  longest run of letters is taken, up to 15, and \<open>$\<close> is tested behind it.
\<close>

definition match_tld :: "pystr \<Rightarrow> bool" where
  "match_tld s =
     (let t = takeWhile alpha_class s; r = dropWhile alpha_class s
      in 2 \<le> length t \<and> (if length t \<le> 15 then at_dollar r else False))"

text \<open>
  One round of the group \<open>([a-zA-Z0-9-_]+\.)\<close> (the dot is code point 46): a non-empty
  run of class characters and a dot. The dot is not in the class, so only the longest run
  can be followed by it. The result is the rest of the string behind the dot.
\<close>

definition match_group :: "pystr \<Rightarrow> pystr option" where
  "match_group s =
     (let l = takeWhile word_class s; r = dropWhile word_class s
      in if l \<noteq> [] \<and> r \<noteq> [] \<and> hd r = 46 then Some (tl r) else None)"

lemma match_group_shorter: "match_group s = Some r \<Longrightarrow> length r < length s"
proof -
  assume a: "match_group s = Some r"
  have "length (dropWhile word_class s) \<le> length s" by (rule length_dropWhile_le)
  with a show ?thesis
    by (cases "dropWhile word_class s") (auto simp: match_group_def Let_def split: if_splits)
qed

text \<open>
  The rest of the pattern after the first round of the group: further rounds, tried
  first, and the final label with \<open>$\<close> where no further round leads to a match.
\<close>

function match_groups :: "pystr \<Rightarrow> bool" where
  "match_groups s =
     (case match_group s of
        Some r \<Rightarrow> match_groups r \<or> match_tld s
      | None \<Rightarrow> match_tld s)"
  by pat_completeness auto
termination
  by (relation "measure length") (auto simp: match_group_shorter)

text \<open>
  \<open>re.match\<close> anchors at the start; \<open>(?!:\/\/)\<close> refuses a string that begins with
  \<open>://\<close>; the group is matched at least once.
\<close>

definition is_valid_domain :: "pystr \<Rightarrow> bool" where
  "is_valid_domain domain =
     (\<not> startswith domain (str ''://'') \<and>
      (case match_group domain of Some r \<Rightarrow> match_groups r | None \<Rightarrow> False))"

text \<open>
  Two notions of the specification, for comparison with the code. The final label of a
  string is the text behind its last dot (the whole string when it has no dot).
\<close>

definition final_label :: "pystr \<Rightarrow> pystr" where
  "final_label s = rev (takeWhile (\<lambda>c. c \<noteq> 46) (rev s))"

text \<open>
  The language of the pattern, read as a grammar: one or more labels, each a non-empty
  run of class characters with a dot behind it, then 2 to 15 letters, then nothing or
  one final line feed.
\<close>

definition pattern_language :: "pystr \<Rightarrow> bool" where
  "pattern_language s =
     (\<exists>ls t nl. ls \<noteq> [] \<and> list_all (\<lambda>l. l \<noteq> [] \<and> list_all word_class l) ls
        \<and> list_all alpha_class t \<and> 2 \<le> length t \<and> length t \<le> 15
        \<and> (nl = [] \<or> nl = [10])
        \<and> s = concat (map (\<lambda>l. l @ [46]) ls) @ t @ nl)"

section \<open>Loading the domains\<close>

text \<open>
  \<^verbatim>\<open>
  cleaned_domains = []
  for domain in original_domains:
      if isinstance(domain, str):
          cleaned_domains.append(clean_domain(domain))
      else:
          logging.warning(f"Non-string domain skipped: {domain}")
  input_domains = set(filter(is_valid_domain, cleaned_domains))
  \<close>
  \<open>original_domains\<close> is the list read by \<open>json.load\<close>; its elements are JSON values
  (an object is one more value that is not a string and is skipped in the same way).
\<close>

datatype json_value =
  JNull | JBool bool | JNumber int | JString pystr | JArray "json_value list"

fun cleaned_domains :: "json_value list \<Rightarrow> pystr list" where
  "cleaned_domains [] = []"
| "cleaned_domains (JString domain # rest) = clean_domain domain # cleaned_domains rest"
| "cleaned_domains (_ # rest) = cleaned_domains rest"

definition input_domains :: "json_value list \<Rightarrow> pystr set" where
  "input_domains original_domains = set (filter is_valid_domain (cleaned_domains original_domains))"

section \<open>Batches\<close>

text \<open>
  \<^verbatim>\<open>
  batches = [list(input_domains)[i:i + 50] for i in range(0, len(input_domains), 50)]
  \<close>
  \<open>py_range i stop step\<close> is \<open>range(i, stop, step)\<close> for a positive step (Python
  refuses the step 0; the source's step is the constant 50). \<open>slice xs i j\<close> is
  \<open>xs[i:j]\<close> for \<open>0 \<le> i \<le> j\<close>: it stops at the end of the list. The set is not changed
  while the batches are built, so \<open>list(input_domains)\<close> is the same list each time;
  the model takes that list, \<open>domain_list\<close>, as its argument.
\<close>

function py_range :: "nat \<Rightarrow> nat \<Rightarrow> nat \<Rightarrow> nat list" where
  "py_range i stop step =
     (if step = 0 then [] else if i < stop then i # py_range (i + step) stop step else [])"
  by pat_completeness auto
termination
  by (relation "measure (\<lambda>(i, stop, step). stop - i)") auto

definition slice :: "'a list \<Rightarrow> nat \<Rightarrow> nat \<Rightarrow> 'a list" where
  "slice xs i j = take (j - i) (drop i xs)"

definition batches :: "pystr list \<Rightarrow> pystr list list" where
  "batches domain_list =
     map (\<lambda>i. slice domain_list i (i + 50)) (py_range 0 (length domain_list) 50)"

section \<open>Fetching one batch\<close>

text \<open>
  \<^verbatim>\<open>
  def fetch_data(batch, index, api_url, headers, params, pbar):
      if shutdown_flag.is_set():
          return None
      for attempt in range(5):
          if shutdown_flag.is_set():
              return None
          try:
              response = requests.post(..., json={'domains': batch}, timeout=REQUEST_TIMEOUT)
              response.raise_for_status()
              return response.json()
          except requests.exceptions.RequestException as e:
              logging.warning(f"[Batch {index+1}] Attempt {attempt+1} failed: ...")
              if attempt == 4:
                  logging.error(f"[ERROR] [Batch {index+1}] All 5 attempts failed. ...")
                  return None
              time.sleep((2 ** attempt) * 2)
  \<close>
  A response body is the list of records the interface describes: each record may carry a
  list of domains under \<open>employeeAt\<close> and under \<open>clientAt\<close>.

  The three lines of the \<open>try\<close> block are one attempt. It ends with the parsed body, with
  a \<open>RequestException\<close> (network error, timeout, bad status), or with an exception of
  another class, which the handler does not catch and which leaves \<open>fetch_data\<close>.

  The world outside is given by two functions: \<open>flag k\<close> is what the \<open>k\<close>-th call of
  \<open>shutdown_flag.is_set()\<close> made by this fetch returns (call 0 is the one before the loop,
  call \<open>attempt + 1\<close> the one at the head of the iteration), and \<open>net attempt\<close> is how
  the attempt with that index ends. The result is the returned value (\<open>None\<close> is Python's
  \<open>None\<close>) or the escaping exception, with the trace of the posts, log lines and sleeps.
\<close>

record response_record =
  employeeAt :: "pystr list option"
  clientAt :: "pystr list option"

datatype attempt = Reply "response_record list" | RequestException | OtherException

datatype exn = Raised

datatype event = Post "pystr list" | Sleep nat | LogWarning nat nat | LogError nat

type_synonym fetch_result = "exn + response_record list option"

fun attempts_loop ::
  "(nat \<Rightarrow> bool) \<Rightarrow> (nat \<Rightarrow> attempt) \<Rightarrow> pystr list \<Rightarrow> nat \<Rightarrow> nat list
     \<Rightarrow> fetch_result \<times> event list" where
  "attempts_loop flag net batch index [] = (Inr None, [])"
| "attempts_loop flag net batch index (attempt # rest) =
     (if flag (attempt + 1) then (Inr None, [])
      else case net attempt of
          Reply data \<Rightarrow> (Inr (Some data), [Post batch])
        | OtherException \<Rightarrow> (Inl Raised, [Post batch])
        | RequestException \<Rightarrow>
            if attempt = 4
            then (Inr None, [Post batch, LogWarning (index + 1) (attempt + 1), LogError (index + 1)])
            else (case attempts_loop flag net batch index rest of
                    (r, evs) \<Rightarrow>
                      (r, [Post batch, LogWarning (index + 1) (attempt + 1),
                           Sleep (2 ^ attempt * 2)] @ evs)))"

definition fetch_data ::
  "(nat \<Rightarrow> bool) \<Rightarrow> (nat \<Rightarrow> attempt) \<Rightarrow> pystr list \<Rightarrow> nat \<Rightarrow> fetch_result \<times> event list" where
  "fetch_data flag net batch index =
     (if flag 0 then (Inr None, [])
      else attempts_loop flag net batch index (py_range 0 5 1))"

section \<open>Collecting the results\<close>

text \<open>
  \<^verbatim>\<open>
  for future in as_completed(futures):
      if shutdown_flag.is_set():
          break
      data = future.result()
      if data:
          for item in data:
              if 'employeeAt' in item and item['employeeAt']:
                  results.update(d for d in item['employeeAt'] if d in input_domains)
              elif 'clientAt' in item and item['clientAt']:
                  results.update(d for d in item['clientAt'] if d in input_domains)
      pbar.update(1)
  \<close>
  \<open>present_nonempty\<close> is the test \<open>'k' in item and item['k']\<close> on a list.
\<close>

definition present_nonempty :: "pystr list option \<Rightarrow> bool" where
  "present_nonempty v = (case v of None \<Rightarrow> False | Some l \<Rightarrow> l \<noteq> [])"

definition absorb_item :: "pystr set \<Rightarrow> response_record \<Rightarrow> pystr set \<Rightarrow> pystr set" where
  "absorb_item valid item results =
     (if present_nonempty (employeeAt item)
      then results \<union> set (filter (\<lambda>d. d \<in> valid) (the (employeeAt item)))
      else if present_nonempty (clientAt item)
      then results \<union> set (filter (\<lambda>d. d \<in> valid) (the (clientAt item)))
      else results)"

text \<open>The body of the loop behind \<open>data = future.result()\<close>; \<open>None\<close> and \<open>[]\<close> are falsy.\<close>

definition absorb :: "pystr set \<Rightarrow> response_record list option \<Rightarrow> pystr set \<Rightarrow> pystr set" where
  "absorb valid data results =
     (case data of
        None \<Rightarrow> results
      | Some items \<Rightarrow> if items = [] then results else fold (absorb_item valid) items results)"

text \<open>
  The loop over the completed futures, in the order of completion. Each future comes with
  what \<open>shutdown_flag.is_set()\<close> returns at the head of its iteration. \<open>future.result()\<close>
  raises again the exception that left \<open>fetch_data\<close>; nothing in \<open>main\<close> catches it.
\<close>

fun collect :: "pystr set \<Rightarrow> (bool \<times> fetch_result) list \<Rightarrow> pystr set \<Rightarrow> exn + pystr set" where
  "collect valid [] results = Inr results"
| "collect valid ((is_set, res) # futures) results =
     (if is_set then Inr results
      else case res of
          Inl e \<Rightarrow> Inl e
        | Inr data \<Rightarrow> collect valid futures (absorb valid data results))"

text \<open>
  \<open>main\<close>: every batch is submitted and runs \<open>fetch_data\<close> with its own view of the flag
  (\<open>fetch_flag i\<close>) and of the network (\<open>net i\<close>); \<open>completion\<close> is the order in which
  the futures complete, \<open>loop_flag k\<close> the flag as read at the head of the \<open>k\<close>-th
  iteration of the collecting loop. In a run of the program \<open>completion\<close> lists each
  batch index once. The result is the set written to the results file, or the exception
  that ends the program, and the events of all fetches, batch by batch. The handler
  installed for \<open>SIGINT\<close> only sets the flag, so the interrupt reaches \<open>main\<close> through
  the flag alone.
\<close>

definition main ::
  "pystr list \<Rightarrow> (nat \<Rightarrow> nat \<Rightarrow> bool) \<Rightarrow> (nat \<Rightarrow> nat \<Rightarrow> attempt) \<Rightarrow> nat list \<Rightarrow> (nat \<Rightarrow> bool)
     \<Rightarrow> (exn + pystr set) \<times> event list" where
  "main domain_list fetch_flag net completion loop_flag =
     (let bs = batches domain_list;
          runs = map (\<lambda>i. fetch_data (fetch_flag i) (net i) (bs ! i) i) [0..<length bs];
          futures = map (\<lambda>(k, i). (loop_flag k, fst (runs ! i))) (enumerate 0 completion)
      in (collect (set domain_list) futures {}, concat (map snd runs)))"

section \<open>Reading a trace; the selection rule of the specification\<close>

text \<open>
  \<open>is_post\<close> recognises a network call in a trace, \<open>sleeps\<close> lists the delays of a trace
  in order.
\<close>

fun is_post :: "event \<Rightarrow> bool" where
  "is_post (Post _) = True"
| "is_post _ = False"

fun sleeps :: "event list \<Rightarrow> nat list" where
  "sleeps [] = []"
| "sleeps (Sleep n # evs) = n # sleeps evs"
| "sleeps (_ # evs) = sleeps evs"

text \<open>
  The rule of the specification for one response record: the employee-relation list if
  it is present and non-empty, else the client-relation list if it is present and
  non-empty, else nothing.
\<close>

definition selected_domains :: "response_record \<Rightarrow> pystr list" where
  "selected_domains item =
     (case employeeAt item of
        Some (d # ds) \<Rightarrow> d # ds
      | _ \<Rightarrow> (case clientAt item of Some (d # ds) \<Rightarrow> d # ds | _ \<Rightarrow> []))"

section \<open>The validity test and the language of its pattern\<close>

lemma dot_not_word: "\<not> word_class 46"
  by (simp add: word_class_def alpha_class_def)

lemma colon_not_word: "\<not> word_class 58"
  by (simp add: word_class_def alpha_class_def)

lemma match_group_SomeD:
  assumes "match_group s = Some r"
  shows "\<exists>l. s = l @ 46 # r \<and> l \<noteq> [] \<and> list_all word_class l"
proof -
  let ?l = "takeWhile word_class s" and ?d = "dropWhile word_class s"
  from assms have l: "?l \<noteq> []" and d: "?d \<noteq> []" and h: "hd ?d = 46" and r: "r = tl ?d"
    by (auto simp: match_group_def Let_def split: if_splits)
  from d h r have "?d = 46 # r" by (cases ?d) auto
  then have "s = ?l @ 46 # r" using takeWhile_dropWhile_id [of word_class s] by simp
  moreover have "list_all word_class ?l" by (simp add: list_all_iff) (meson set_takeWhileD)
  ultimately show ?thesis using l by blast
qed

lemma match_group_app:
  assumes "l \<noteq> []" "list_all word_class l"
  shows "match_group (l @ 46 # r) = Some r"
proof -
  from assms(2) have "takeWhile word_class (l @ 46 # r) = l"
    by (simp add: list_all_iff dot_not_word)
  moreover from assms(2) have "dropWhile word_class (l @ 46 # r) = 46 # r"
    by (simp add: list_all_iff dot_not_word)
  ultimately show ?thesis using assms(1) by (simp add: match_group_def)
qed

lemma match_tld_D:
  assumes "match_tld s"
  shows "\<exists>t nl. s = t @ nl \<and> list_all alpha_class t \<and> 2 \<le> length t \<and> length t \<le> 15
           \<and> (nl = [] \<or> nl = [10])"
proof -
  let ?t = "takeWhile alpha_class s" and ?d = "dropWhile alpha_class s"
  from assms have "2 \<le> length ?t" "length ?t \<le> 15" "?d = [] \<or> ?d = [10]"
    by (auto simp: match_tld_def Let_def at_dollar_def split: if_splits)
  moreover have "s = ?t @ ?d" by simp
  moreover have "list_all alpha_class ?t" by (simp add: list_all_iff) (meson set_takeWhileD)
  ultimately show ?thesis by blast
qed

lemma match_tld_app:
  assumes "list_all alpha_class t" "2 \<le> length t" "length t \<le> 15" "nl = [] \<or> nl = [10]"
  shows "match_tld (t @ nl)"
proof -
  have na: "\<not> alpha_class 10" by (simp add: alpha_class_def)
  from assms(1,4) na have "takeWhile alpha_class (t @ nl) = t"
    by (auto simp: list_all_iff)
  moreover from assms(1,4) na have "dropWhile alpha_class (t @ nl) = nl"
    by (auto simp: list_all_iff)
  ultimately show ?thesis using assms by (auto simp: match_tld_def at_dollar_def)
qed

declare match_groups.simps [simp del]

lemma match_tld_groups: "match_tld s \<Longrightarrow> match_groups s"
  by (subst match_groups.simps) (simp split: option.split)

lemma match_groups_D:
  "match_groups s \<Longrightarrow>
     \<exists>ls t nl. list_all (\<lambda>l. l \<noteq> [] \<and> list_all word_class l) ls
        \<and> list_all alpha_class t \<and> 2 \<le> length t \<and> length t \<le> 15
        \<and> (nl = [] \<or> nl = [10])
        \<and> s = concat (map (\<lambda>l. l @ [46]) ls) @ t @ nl"
proof (induction s rule: match_groups.induct)
  case (1 s)
  from "1.prems" have "(\<exists>r. match_group s = Some r \<and> match_groups r) \<or> match_tld s"
    by (subst (asm) match_groups.simps) (auto split: option.splits)
  then show ?case
  proof
    assume "\<exists>r. match_group s = Some r \<and> match_groups r"
    then obtain r where r: "match_group s = Some r" "match_groups r" by blast
    from "1.IH" [OF r] obtain ls t nl where
      ih: "list_all (\<lambda>l. l \<noteq> [] \<and> list_all word_class l) ls" "list_all alpha_class t"
        "2 \<le> length t" "length t \<le> 15" "nl = [] \<or> nl = [10]"
        "r = concat (map (\<lambda>l. l @ [46]) ls) @ t @ nl"
      by blast
    from match_group_SomeD [OF r(1)] obtain l where
      l: "s = l @ 46 # r" "l \<noteq> []" "list_all word_class l" by blast
    have "list_all (\<lambda>l. l \<noteq> [] \<and> list_all word_class l) (l # ls)"
      using ih(1) l(2,3) by simp
    moreover have "s = concat (map (\<lambda>l. l @ [46]) (l # ls)) @ t @ nl"
      using l(1) ih(6) by simp
    ultimately show ?thesis using ih(2-5) by blast
  next
    assume "match_tld s"
    from match_tld_D [OF this] obtain t nl where
      "s = t @ nl" "list_all alpha_class t" "2 \<le> length t" "length t \<le> 15" "nl = [] \<or> nl = [10]"
      by blast
    then have "list_all (\<lambda>l. l \<noteq> [] \<and> list_all word_class l) []
        \<and> list_all alpha_class t \<and> 2 \<le> length t \<and> length t \<le> 15
        \<and> (nl = [] \<or> nl = [10])
        \<and> s = concat (map (\<lambda>l. l @ [46]) []) @ t @ nl"
      by simp
    then show ?thesis by blast
  qed
qed

lemma match_groups_app:
  assumes "list_all (\<lambda>l. l \<noteq> [] \<and> list_all word_class l) ls"
    and "list_all alpha_class t" "2 \<le> length t" "length t \<le> 15" "nl = [] \<or> nl = [10]"
  shows "match_groups (concat (map (\<lambda>l. l @ [46]) ls) @ t @ nl)"
  using assms(1)
proof (induction ls)
  case Nil
  show ?case using match_tld_app [OF assms(2-5)] by (simp add: match_tld_groups)
next
  case (Cons l ls)
  then have l: "l \<noteq> []" "list_all word_class l"
    and rest: "match_groups (concat (map (\<lambda>l. l @ [46]) ls) @ t @ nl)"
    by simp_all
  have "match_group (l @ 46 # (concat (map (\<lambda>l. l @ [46]) ls) @ t @ nl))
          = Some (concat (map (\<lambda>l. l @ [46]) ls) @ t @ nl)"
    by (rule match_group_app [OF l])
  with rest show ?case
    by (subst match_groups.simps) simp
qed

lemma is_valid_domain_iff_pattern: "is_valid_domain s = pattern_language s"
proof
  assume v: "is_valid_domain s"
  then obtain r where r: "match_group s = Some r" "match_groups r"
    by (auto simp: is_valid_domain_def split: option.splits)
  from match_group_SomeD [OF r(1)] obtain l where
    l: "s = l @ 46 # r" "l \<noteq> []" "list_all word_class l" by blast
  from match_groups_D [OF r(2)] obtain ls t nl where
    ih: "list_all (\<lambda>l. l \<noteq> [] \<and> list_all word_class l) ls" "list_all alpha_class t"
      "2 \<le> length t" "length t \<le> 15" "nl = [] \<or> nl = [10]"
      "r = concat (map (\<lambda>l. l @ [46]) ls) @ t @ nl"
    by blast
  have "l # ls \<noteq> []" by simp
  moreover have "list_all (\<lambda>l. l \<noteq> [] \<and> list_all word_class l) (l # ls)"
    using ih(1) l(2,3) by simp
  moreover have "s = concat (map (\<lambda>l. l @ [46]) (l # ls)) @ t @ nl"
    using l(1) ih(6) by simp
  ultimately show "pattern_language s"
    unfolding pattern_language_def using ih(2-5) by blast
next
  assume "pattern_language s"
  then obtain ls t nl where
    p: "ls \<noteq> []" "list_all (\<lambda>l. l \<noteq> [] \<and> list_all word_class l) ls" "list_all alpha_class t"
      "2 \<le> length t" "length t \<le> 15" "nl = [] \<or> nl = [10]"
      "s = concat (map (\<lambda>l. l @ [46]) ls) @ t @ nl"
    unfolding pattern_language_def by blast
  from p(1) obtain l ls' where ls: "ls = l # ls'" by (cases ls) auto
  with p(2) have l: "l \<noteq> []" "list_all word_class l"
    and ls': "list_all (\<lambda>l. l \<noteq> [] \<and> list_all word_class l) ls'" by simp_all
  let ?r = "concat (map (\<lambda>l. l @ [46]) ls') @ t @ nl"
  have s: "s = l @ 46 # ?r" using p(7) ls by simp
  have g: "match_group s = Some ?r" unfolding s by (rule match_group_app [OF l])
  have r: "match_groups ?r" by (rule match_groups_app [OF ls' p(3-6)])
  from l obtain c cs where c: "l = c # cs" "word_class c" by (cases l) auto
  with colon_not_word have "c \<noteq> 58" by auto
  then have "\<not> startswith s (str ''://'')"
    by (simp add: s c startswith_def str_def)
  with g r show "is_valid_domain s" by (simp add: is_valid_domain_def)
qed


lemma endswith_dot_iff: "endswith s (str ''.'') = (s \<noteq> [] \<and> last s = 46)"
proof (cases s rule: rev_cases)
  case Nil
  then show ?thesis by (simp add: endswith_def str_def)
next
  case (snoc ys y)
  then show ?thesis by (auto simp: endswith_def str_def)
qed

lemma endswith_lf_iff: "endswith s [10] = (s \<noteq> [] \<and> last s = 10)"
proof (cases s rule: rev_cases)
  case Nil
  then show ?thesis by (simp add: endswith_def)
next
  case (snoc ys y)
  then show ?thesis by (auto simp: endswith_def)
qed

lemma dot_not_alpha: "\<not> alpha_class 46"
  by (simp add: alpha_class_def)

lemma pattern_language_no_trailing_dot:
  assumes "pattern_language s"
  shows "\<not> endswith s (str ''.'')"
proof -
  from assms obtain ls t nl where
    p: "list_all alpha_class t" "2 \<le> length t" "nl = [] \<or> nl = [10]"
      "s = concat (map (\<lambda>l. l @ [46]) ls) @ t @ nl"
    unfolding pattern_language_def by blast
  from p(2) have t: "t \<noteq> []" by auto
  with p(1) have "alpha_class (last t)" by (simp add: list_all_iff)
  with dot_not_alpha have "last t \<noteq> 46" by auto
  with p(3,4) t have "last s \<noteq> 46" by auto
  then show ?thesis by (simp add: endswith_dot_iff)
qed

lemma final_label_pattern:
  assumes "ls \<noteq> []" "list_all alpha_class t" "nl = [] \<or> nl = [10]"
  shows "final_label (concat (map (\<lambda>l. l @ [46]) ls) @ t @ nl) = t @ nl"
proof -
  from assms(1) obtain ks k where ls: "ls = ks @ [k]" by (cases ls rule: rev_cases) auto
  have nd: "\<forall>c \<in> set (rev nl @ rev t). c \<noteq> 46"
    using assms(2,3) dot_not_alpha by (auto simp: list_all_iff)
  have "rev (concat (map (\<lambda>l. l @ [46]) ls) @ t @ nl)
          = (rev nl @ rev t) @ 46 # rev (concat (map (\<lambda>l. l @ [46]) ks) @ k)"
    by (simp add: ls)
  moreover have "takeWhile (\<lambda>c. c \<noteq> 46)
            ((rev nl @ rev t) @ 46 # rev (concat (map (\<lambda>l. l @ [46]) ks) @ k))
          = (rev nl @ rev t)
              @ takeWhile (\<lambda>c. c \<noteq> 46) (46 # rev (concat (map (\<lambda>l. l @ [46]) ks) @ k))"
    by (rule takeWhile_append2) (use nd in blast)
  ultimately have "takeWhile (\<lambda>c. c \<noteq> 46) (rev (concat (map (\<lambda>l. l @ [46]) ls) @ t @ nl))
          = rev nl @ rev t"
    by simp
  then show ?thesis by (simp add: final_label_def)
qed

lemma final_label_bound:
  assumes "is_valid_domain s"
  shows "length (final_label s) \<le> (if endswith s [10] then 16 else 15)"
proof -
  from assms have "pattern_language s" by (simp add: is_valid_domain_iff_pattern)
  then obtain ls t nl where
    p: "ls \<noteq> []" "list_all alpha_class t" "2 \<le> length t" "length t \<le> 15" "nl = [] \<or> nl = [10]"
      "s = concat (map (\<lambda>l. l @ [46]) ls) @ t @ nl"
    unfolding pattern_language_def by blast
  have fl: "final_label s = t @ nl" unfolding p(6) by (rule final_label_pattern [OF p(1,2,5)])
  from p(3) have t: "t \<noteq> []" by auto
  with p(2) have "alpha_class (last t)" by (simp add: list_all_iff)
  then have "last t \<noteq> 10" by (auto simp: alpha_class_def)
  with p(5,6) t have "endswith s [10] = (nl = [10])"
    by (auto simp: endswith_lf_iff)
  with fl p(4,5) show ?thesis by auto
qed

lemma set_cleaned_domains:
  "set (cleaned_domains raw) = {clean_domain r | r. JString r \<in> set raw}"
  by (induction raw rule: cleaned_domains.induct) auto

lemma input_domains_iff:
  "d \<in> input_domains raw = (is_valid_domain d \<and> (\<exists>r. JString r \<in> set raw \<and> d = clean_domain r))"
  by (auto simp: input_domains_def set_cleaned_domains)

lemma startswith_take:
  "startswith (take n s) p \<Longrightarrow> startswith s p"
  by (metis startswith_def append_eq_conv_conj append_take_drop_id append.assoc)

lemma clean_domain_www:
  assumes "startswith (clean_domain r) (str ''www.'')"
  shows "startswith r (str ''www.www.'')"
proof (cases "startswith r (str ''www.'')")
  case True
  have len: "length (str ''www.'') = 4" by (simp add: str_def)
  from True have a: "take 4 r = str ''www.''" unfolding startswith_def len .
  from True assms have "startswith (drop 4 r) (str ''www.'')"
    by (auto simp: clean_domain_def Let_def dest: startswith_take split: if_splits)
  then have b: "take 4 (drop 4 r) = str ''www.''" unfolding startswith_def len .
  have "take (4 + 4) r = str ''www.'' @ str ''www.''"
    by (simp only: take_add a b)
  moreover have "str ''www.'' @ str ''www.'' = str ''www.www.''" by (simp add: str_def)
  moreover have "length (str ''www.www.'') = 4 + 4" by (simp add: str_def)
  ultimately show ?thesis by (simp only: startswith_def)
next
  case False
  with assms show ?thesis
    by (auto simp: clean_domain_def Let_def dest: startswith_take split: if_splits)
qed


section \<open>Evaluating the validity test\<close>

lemmas valid_eval = is_valid_domain_def match_groups.simps match_group_def match_tld_def
  at_dollar_def word_class_def alpha_class_def startswith_def str_def Let_def

lemmas load_eval = input_domains_def clean_domain_def endswith_def valid_eval

lemma is_valid_domain_examples:
  "is_valid_domain (str ''example.com'')"
  "\<not> is_valid_domain (str ''http://example.com'')"
  "\<not> is_valid_domain (str ''a..com'')"
  "\<not> is_valid_domain (str ''ex'')"
  "\<not> is_valid_domain (str ''a.verylongtldname123'')"
  by (simp_all add: valid_eval)

text \<open>
  C9: the validity test is true for \<open>example.com\<close> and false for
  \<open>http://example.com\<close>, \<open>a..com\<close>, \<open>ex\<close> and every domain whose final label has more
  than 15 characters. The listed strings behave so (\<open>is_valid_domain_examples\<close>), and a
  valid string has a final label of at most 15 characters unless it ends with a line feed
  (\<open>final_label_bound\<close>). With a line feed at the end the test accepts a final label of
  16 characters: \<open>$\<close> matches in front of it.
\<close>

theorem is_valid_domain_accepts_long_final_label:
  "is_valid_domain (str ''a.abcdefghijklmno'' @ [10])
   \<and> final_label (str ''a.abcdefghijklmno'' @ [10]) = str ''abcdefghijklmno'' @ [10]
   \<and> length (final_label (str ''a.abcdefghijklmno'' @ [10])) = 16"
  by (simp add: valid_eval final_label_def)

section \<open>The validated set\<close>

text \<open>
  C8 (as stated): the input \<open>["a.com", "www.a.com", "A.COM"]\<close> collapses to a single
  entry. The set built by the code is not a singleton.
\<close>

theorem input_domains_example_not_single:
  "\<not> (\<exists>d. input_domains [JString (str ''a.com''), JString (str ''www.a.com''),
                            JString (str ''A.COM'')] = {d})"
proof -
  have "input_domains [JString (str ''a.com''), JString (str ''www.a.com''),
                       JString (str ''A.COM'')] = {str ''a.com'', str ''A.COM''}"
    by (simp add: load_eval)
  moreover have "str ''a.com'' \<noteq> str ''A.COM''" by (simp add: str_def)
  ultimately show ?thesis by (metis doubleton_eq_iff insert_absorb2)
qed

text \<open>
  C8 (amended): on that input \<open>a.com\<close> and \<open>www.a.com\<close> collapse to the one entry
  \<open>a.com\<close>, by equality of the cleaned strings; \<open>A.COM\<close> is a different string and
  stays a second entry, since nothing folds case. The set has exactly these two members.
\<close>

theorem input_domains_example:
  "input_domains [JString (str ''a.com''), JString (str ''www.a.com''),
                  JString (str ''A.COM'')] = {str ''a.com'', str ''A.COM''}
   \<and> clean_domain (str ''www.a.com'') = clean_domain (str ''a.com'')
   \<and> clean_domain (str ''A.COM'') \<noteq> clean_domain (str ''a.com'')
   \<and> card (input_domains [JString (str ''a.com''), JString (str ''www.a.com''),
                           JString (str ''A.COM'')]) = 2"
  by (simp add: load_eval)

text \<open>
  C4 (as stated): no member of the validated set has a leading \<open>www.\<close>. The raw entry
  \<open>www.www.a.com\<close> loses one \<open>www.\<close> and enters the set as \<open>www.a.com\<close>.
\<close>

theorem input_domains_keeps_second_www:
  "str ''www.a.com'' \<in> input_domains [JString (str ''www.www.a.com'')]
   \<and> startswith (str ''www.a.com'') (str ''www.'')"
  by (simp add: load_eval)

text \<open>
  C4 (amended): no member of the validated set ends with a dot, and every member is the
  cleaned form of a raw string entry; a member begins with \<open>www.\<close> only when that raw
  entry began with \<open>www.www.\<close>.
\<close>

theorem input_domains_canonical:
  assumes "d \<in> input_domains raw"
  shows "\<not> endswith d (str ''.'')
     \<and> (\<exists>r. JString r \<in> set raw \<and> d = clean_domain r
            \<and> (startswith d (str ''www.'') \<longrightarrow> startswith r (str ''www.www.'')))"
proof -
  from assms obtain r where r: "is_valid_domain d" "JString r \<in> set raw" "d = clean_domain r"
    by (auto simp: input_domains_iff)
  from r(1) have "\<not> endswith d (str ''.'')"
    by (simp add: is_valid_domain_iff_pattern pattern_language_no_trailing_dot)
  moreover have "startswith d (str ''www.'') \<longrightarrow> startswith r (str ''www.www.'')"
    using clean_domain_www [of r] r(3) by simp
  ultimately show ?thesis using r(2,3) by blast
qed

theorem input_domains_canonical_witness:
  "str ''example.com'' \<in> input_domains [JNumber 7, JString (str ''www.example.com.'')]
   \<and> \<not> endswith (str ''example.com'') (str ''.'')"
proof -
  have m: "str ''example.com'' \<in> input_domains [JNumber 7, JString (str ''www.example.com.'')]"
    by (simp add: load_eval)
  from input_domains_canonical [OF m] m show ?thesis by blast
qed

section \<open>The batches partition the list of domains\<close>

lemma ceil_div_50_step:
  fixes i :: nat
  assumes "i < stop"
  shows "(stop - i + 49) div 50 = Suc ((stop - (i + 50) + 49) div 50)"
proof (cases "stop - i < 50")
  case True
  then have z: "stop - (i + 50) = 0" by simp
  from assms True have "50 * 1 \<le> stop - i + 49" "stop - i + 49 < 50 * Suc 1" by simp_all
  then have "(stop - i + 49) div 50 = 1" by (rule div_nat_eqI)
  with z show ?thesis by simp
next
  case False
  then have "stop - i + 49 = (stop - (i + 50) + 49) + 50" by simp
  then have "(stop - i + 49) div 50 = ((stop - (i + 50) + 49) + 50) div 50" by (rule arg_cong)
  also have "\<dots> = Suc ((stop - (i + 50) + 49) div 50)" by simp
  finally show ?thesis .
qed

declare py_range.simps [simp del]

lemma upt_0_Suc: "[0..<Suc m] = 0 # map Suc [0..<m]"
  by (simp add: upt_conv_Cons map_Suc_upt del: upt_Suc)

lemma py_range_50_step: "i < stop \<Longrightarrow> py_range i stop 50 = i # py_range (i + 50) stop 50"
  by (subst py_range.simps) simp

lemma py_range_50_done: "\<not> i < stop \<Longrightarrow> py_range i stop 50 = []"
  by (subst py_range.simps) simp

lemma map_chunk_starts: "i # map (\<lambda>k. i + 50 + k * 50) [0..<m] = map (\<lambda>k. i + k * 50) [0..<Suc m]"
  by (simp add: upt_0_Suc comp_def del: upt_Suc)

lemma py_range_50_aux:
  "step = 50 \<Longrightarrow> py_range i stop step = map (\<lambda>k. i + k * 50) [0..<(stop - i + 49) div 50]"
proof (induction i stop step rule: py_range.induct)
  case (1 i stop step)
  show ?case
  proof (cases "i < stop")
    case True
    have "py_range i stop step = i # py_range (i + 50) stop 50"
      using True "1.prems" by (simp add: py_range_50_step)
    also have "py_range (i + 50) stop 50
        = map (\<lambda>k. i + 50 + k * 50) [0..<(stop - (i + 50) + 49) div 50]"
      using "1.IH" True "1.prems" by simp
    also have "i # map (\<lambda>k. i + 50 + k * 50) [0..<(stop - (i + 50) + 49) div 50]
        = map (\<lambda>k. i + k * 50) [0..<Suc ((stop - (i + 50) + 49) div 50)]"
      by (rule map_chunk_starts)
    also have "Suc ((stop - (i + 50) + 49) div 50) = (stop - i + 49) div 50"
      using ceil_div_50_step [OF True] by simp
    finally show ?thesis .
  next
    case False
    then have "stop - i = 0" by simp
    then have "(stop - i + 49) div 50 = 0" by simp
    moreover have "py_range i stop step = []"
      using False "1.prems" by (simp add: py_range_50_done)
    ultimately show ?thesis by simp
  qed
qed

lemma batches_eq:
  "batches xs = map (\<lambda>k. take 50 (drop (k * 50) xs)) [0..<(length xs + 49) div 50]"
  by (simp add: batches_def py_range_50_aux slice_def comp_def)

lemma length_batches: "length (batches xs) = (length xs + 49) div 50"
  by (simp add: batches_eq)

lemma batches_nth:
  "k < length (batches xs) \<Longrightarrow> batches xs ! k = take 50 (drop (k * 50) xs)"
  by (simp add: batches_eq)

lemma chunks_cover: "q * 50 + r = n + 49 \<Longrightarrow> r < 50 \<Longrightarrow> n \<le> q * 50 \<and> q * 50 < n + 50" for n :: nat
  by linarith

lemma batch_count_bounds:
  "length xs \<le> (length xs + 49) div 50 * 50 \<and> (length xs + 49) div 50 * 50 < length xs + 50"
proof (rule chunks_cover)
  show "(length xs + 49) div 50 * 50 + (length xs + 49) mod 50 = length xs + 49"
    by (rule div_mult_mod_eq)
  show "(length xs + 49) mod 50 < 50" by (rule mod_less_divisor) simp
qed

lemma concat_chunks:
  "length xs \<le> n * 50 \<Longrightarrow> concat (map (\<lambda>k. take 50 (drop (k * 50) xs)) [0..<n]) = xs"
proof (induction n arbitrary: xs)
  case 0
  then show ?case by simp
next
  case (Suc n)
  have "concat (map (\<lambda>k. take 50 (drop (k * 50) xs)) [0..<Suc n])
      = take 50 xs @ concat (map (\<lambda>k. take 50 (drop (k * 50) (drop 50 xs))) [0..<n])"
    by (simp add: upt_0_Suc comp_def add.commute del: upt_Suc)
  also have "concat (map (\<lambda>k. take 50 (drop (k * 50) (drop 50 xs))) [0..<n]) = drop 50 xs"
    using Suc.prems by (intro Suc.IH) simp
  finally show ?case by simp
qed

lemma concat_batches: "concat (batches xs) = xs"
  unfolding batches_eq using batch_count_bounds [of xs] by (intro concat_chunks) simp

lemma sum_length_batches: "sum_list (map length (batches xs)) = length xs"
  using concat_batches [of xs] length_concat [of "batches xs"] by simp


lemma div50_iff: "(j div 50 = k) = (\<exists>i<50. j = k * 50 + i)" for j :: nat
proof
  assume "j div 50 = k"
  moreover have "j div 50 * 50 + j mod 50 = j" by (rule div_mult_mod_eq)
  ultimately have "j = k * 50 + j mod 50" by simp
  moreover have "j mod 50 < 50" by simp
  ultimately show "\<exists>i<50. j = k * 50 + i" by blast
next
  assume "\<exists>i<50. j = k * 50 + i"
  then show "j div 50 = k" by auto
qed

lemma in_batch_iff:
  assumes "k < length (batches xs)"
  shows "d \<in> set (batches xs ! k) = (\<exists>j<length xs. xs ! j = d \<and> j div 50 = k)"
proof -
  define ys where "ys = take 50 (drop (k * 50) xs)"
  have eq: "(i < length ys \<and> ys ! i = d)
      = (i < 50 \<and> k * 50 + i < length xs \<and> xs ! (k * 50 + i) = d)" for i
    by (auto simp: ys_def)
  have "d \<in> set ys = (\<exists>i. i < length ys \<and> ys ! i = d)"
    by (auto simp: in_set_conv_nth)
  also have "\<dots> = (\<exists>i<50. k * 50 + i < length xs \<and> xs ! (k * 50 + i) = d)"
    by (simp only: eq)
  also have "\<dots> = (\<exists>j<length xs. xs ! j = d \<and> (\<exists>i<50. j = k * 50 + i))"
    by blast
  finally show ?thesis by (simp add: batches_nth [OF assms] div50_iff ys_def)
qed

lemma index_batch_less:
  assumes "j < length xs"
  shows "j div 50 < length (batches xs)"
proof -
  from assms have "j + 50 \<le> length xs + 49" by simp
  then have "(j + 50) div 50 \<le> (length xs + 49) div 50" by (rule div_le_mono)
  then show ?thesis by (simp add: length_batches)
qed

lemma exactly_one_batch:
  assumes "distinct xs" "d \<in> set xs"
  shows "\<exists>!k. k < length (batches xs) \<and> d \<in> set (batches xs ! k)"
proof -
  from assms(2) obtain j where j: "j < length xs" "xs ! j = d"
    by (auto simp: in_set_conv_nth)
  show ?thesis
  proof (rule ex1I [of _ "j div 50"])
    show "j div 50 < length (batches xs) \<and> d \<in> set (batches xs ! (j div 50))"
      using j index_batch_less [OF j(1)] by (auto simp: in_batch_iff)
  next
    fix k
    assume k: "k < length (batches xs) \<and> d \<in> set (batches xs ! k)"
    then obtain j' where j': "j' < length xs" "xs ! j' = d" "j' div 50 = k"
      by (auto simp: in_batch_iff)
    from nth_eq_iff_index_eq [OF assms(1) j'(1) j(1)] j(2) j'(2) have "j' = j" by simp
    with j'(3) show "k = j div 50" by simp
  qed
qed

lemma ceil50: "\<lceil>real n / 50\<rceil> = int ((n + 49) div 50)"
proof -
  define q where "q = (n + 49) div 50"
  have "q * 50 + (n + 49) mod 50 = n + 49" unfolding q_def by (rule div_mult_mod_eq)
  moreover have "(n + 49) mod 50 < 50" by (rule mod_less_divisor) simp
  ultimately have b: "n \<le> q * 50 \<and> q * 50 < n + 50" by (rule chunks_cover)
  then have "real n \<le> real (q * 50)" "real (q * 50) < real (n + 50)"
    by (simp_all only: of_nat_le_iff of_nat_less_iff)
  then have "real n / 50 \<le> real q" "real q - 1 < real n / 50" by simp_all
  then have "\<lceil>real n / 50\<rceil> = int q"
    by (intro ceiling_unique) simp_all
  then show ?thesis by (simp add: q_def)
qed

text \<open>
  C5: for a validated set of \<open>N\<close> domains, listed without repetition, the lengths of the
  batches sum to \<open>N\<close>, every domain of the set is in exactly one batch, the number of
  batches is \<open>\<lceil>N / 50\<rceil>\<close>, and the empty set gives no batch.
\<close>

theorem batches_partition:
  assumes "distinct domain_list" and "set domain_list = valid"
  shows "sum_list (map length (batches domain_list)) = card valid
     \<and> (\<forall>d\<in>valid. \<exists>!k. k < length (batches domain_list) \<and> d \<in> set (batches domain_list ! k))
     \<and> int (length (batches domain_list)) = \<lceil>real (card valid) / 50\<rceil>
     \<and> (valid = {} \<longrightarrow> batches domain_list = [])"
proof -
  from assms have c: "card valid = length domain_list" by (auto simp: distinct_card)
  have "valid = {} \<longrightarrow> batches domain_list = []"
    using assms(2) by (auto simp: batches_eq)
  moreover have "\<forall>d\<in>valid. \<exists>!k. k < length (batches domain_list) \<and> d \<in> set (batches domain_list ! k)"
    using exactly_one_batch [OF assms(1)] assms(2) by blast
  ultimately show ?thesis
    by (simp add: c sum_length_batches ceil50 length_batches)
qed

theorem batches_partition_witness:
  "distinct [str ''a.com'', str ''b.com'']
   \<and> sum_list (map length (batches [str ''a.com'', str ''b.com'']))
       = card {str ''a.com'', str ''b.com''}
   \<and> int (length (batches [str ''a.com'', str ''b.com'']))
       = \<lceil>real (card {str ''a.com'', str ''b.com''}) / 50\<rceil>"
proof -
  have d: "distinct [str ''a.com'', str ''b.com'']" by (simp add: str_def)
  from batches_partition [OF d, of "{str ''a.com'', str ''b.com''}"] d show ?thesis by simp
qed

section \<open>Retries and backoff of one fetch\<close>

lemma range5: "py_range 0 5 1 = [0, 1, 2, 3, 4]"
  by (simp add: py_range.simps)

lemma fetch_data_cancelled: "flag 0 \<Longrightarrow> fetch_data flag net b i = (Inr None, [])"
  by (simp add: fetch_data_def)

lemma fetch_data_started:
  "\<not> flag 0 \<Longrightarrow> fetch_data flag net b i = attempts_loop flag net b i [0, 1, 2, 3, 4]"
  unfolding fetch_data_def range5 by simp

lemma attempts_loop_posts:
  "length (filter is_post (snd (attempts_loop flag net b i as))) \<le> length as"
  by (induction as) (auto split: attempt.splits prod.splits)

lemma attempts_loop_retry:
  assumes "\<not> flag (a + 1)" "net a = RequestException" "a \<noteq> 4"
  shows "attempts_loop flag net b i (a # as)
     = (fst (attempts_loop flag net b i as),
        [Post b, LogWarning (i + 1) (a + 1), Sleep (2 ^ a * 2)]
          @ snd (attempts_loop flag net b i as))"
  using assms by (simp add: case_prod_beta)

lemma attempts_loop_stop:
  assumes "flag (a + 1) \<or> net a \<noteq> RequestException \<or> a = 4"
  shows "sleeps (snd (attempts_loop flag net b i (a # as))) = []"
  using assms by (auto split: attempt.splits)

lemma attempts_loop_sleeps:
  "\<exists>k. sleeps (snd (attempts_loop flag net b i as))
        = map (\<lambda>a. 2 ^ a * 2) (take k (takeWhile (\<lambda>a. a \<noteq> 4) as))"
proof (induction as)
  case Nil
  then show ?case by simp
next
  case (Cons a as)
  then obtain k where k: "sleeps (snd (attempts_loop flag net b i as))
        = map (\<lambda>a. 2 ^ a * 2) (take k (takeWhile (\<lambda>a. a \<noteq> 4) as))" by blast
  show ?case
  proof (cases "\<not> flag (a + 1) \<and> net a = RequestException \<and> a \<noteq> 4")
    case True
    then have "sleeps (snd (attempts_loop flag net b i (a # as)))
        = map (\<lambda>a. 2 ^ a * 2) (take (Suc k) (takeWhile (\<lambda>a. a \<noteq> 4) (a # as)))"
      using k by (simp add: attempts_loop_retry del: attempts_loop.simps)
    then show ?thesis by blast
  next
    case False
    then have "sleeps (snd (attempts_loop flag net b i (a # as)))
        = map (\<lambda>a. 2 ^ a * 2) (take 0 (takeWhile (\<lambda>a. a \<noteq> 4) (a # as)))"
      using attempts_loop_stop [of flag a net b i as] by auto
    then show ?thesis by blast
  qed
qed

lemma fetch_data_posts: "length (filter is_post (snd (fetch_data flag net b i))) \<le> 5"
proof (cases "flag 0")
  case True
  then show ?thesis by (simp add: fetch_data_cancelled)
next
  case False
  with attempts_loop_posts [of flag net b i "[0, 1, 2, 3, 4]"] show ?thesis
    by (simp add: fetch_data_started del: attempts_loop.simps)
qed

lemma fetch_data_sleeps:
  "\<exists>k\<le>4. sleeps (snd (fetch_data flag net b i)) = take k [2, 4, 8, 16]"
proof (cases "flag 0")
  case True
  then have "sleeps (snd (fetch_data flag net b i)) = take 0 [2, 4, 8, 16]"
    by (simp add: fetch_data_cancelled)
  then show ?thesis by blast
next
  case False
  from attempts_loop_sleeps [of flag net b i "[0, 1, 2, 3, 4]"] obtain k where
    "sleeps (snd (attempts_loop flag net b i [0, 1, 2, 3, 4]))
        = map (\<lambda>a. 2 ^ a * 2) (take k [0, 1, 2, 3])" by auto
  then have "sleeps (snd (fetch_data flag net b i)) = take k (map (\<lambda>a. 2 ^ a * 2) [0, 1, 2, 3])"
    unfolding fetch_data_started [of flag, OF False] take_map .
  then have "sleeps (snd (fetch_data flag net b i)) = take k [2, 4, 8, 16]"
    by simp
  then have "sleeps (snd (fetch_data flag net b i)) = take (min k 4) [2, 4, 8, 16]"
    by (simp add: min_def)
  then show ?thesis by (metis min.cobounded2)
qed

lemma attempts_loop_four_failures:
  assumes "\<forall>k. \<not> flag k" "\<forall>a<4. net a = RequestException"
  shows "attempts_loop flag net b i [0, 1, 2, 3, 4]
     = (fst (attempts_loop flag net b i [4]),
        [Post b, LogWarning (i + 1) 1, Sleep 2, Post b, LogWarning (i + 1) 2, Sleep 4,
         Post b, LogWarning (i + 1) 3, Sleep 8, Post b, LogWarning (i + 1) 4, Sleep 16]
          @ snd (attempts_loop flag net b i [4]))"
proof -
  from assms have
    "attempts_loop flag net b i [3, 4]
       = (fst (attempts_loop flag net b i [4]),
          [Post b, LogWarning (i + 1) 4, Sleep 16] @ snd (attempts_loop flag net b i [4]))"
    using attempts_loop_retry [of flag 3 net b i "[4]"] by simp
  moreover from assms have
    "attempts_loop flag net b i [2, 3, 4]
       = (fst (attempts_loop flag net b i [3, 4]),
          [Post b, LogWarning (i + 1) 3, Sleep 8] @ snd (attempts_loop flag net b i [3, 4]))"
    using attempts_loop_retry [of flag 2 net b i "[3, 4]"] by simp
  moreover from assms have
    "attempts_loop flag net b i [1, 2, 3, 4]
       = (fst (attempts_loop flag net b i [2, 3, 4]),
          [Post b, LogWarning (i + 1) 2, Sleep 4] @ snd (attempts_loop flag net b i [2, 3, 4]))"
    using attempts_loop_retry [of flag 1 net b i "[2, 3, 4]"] by simp
  moreover from assms have
    "attempts_loop flag net b i [0, 1, 2, 3, 4]
       = (fst (attempts_loop flag net b i [1, 2, 3, 4]),
          [Post b, LogWarning (i + 1) 1, Sleep 2] @ snd (attempts_loop flag net b i [1, 2, 3, 4]))"
    using attempts_loop_retry [of flag 0 net b i "[1, 2, 3, 4]"] by simp
  ultimately show ?thesis by simp
qed

lemma fetch_data_fifth:
  assumes "\<forall>k. \<not> flag k" "\<forall>a<4. net a = RequestException" "net 4 = Reply data"
  shows "fetch_data flag net b i
     = (Inr (Some data),
        [Post b, LogWarning (i + 1) 1, Sleep 2, Post b, LogWarning (i + 1) 2, Sleep 4,
         Post b, LogWarning (i + 1) 3, Sleep 8, Post b, LogWarning (i + 1) 4, Sleep 16,
         Post b])"
proof -
  from assms(1,3) have last: "attempts_loop flag net b i [4] = (Inr (Some data), [Post b])"
    by simp
  from assms(1) have nf: "\<not> flag 0" by simp
  show ?thesis
    unfolding fetch_data_started [of flag, OF nf] attempts_loop_four_failures [of flag net, OF assms(1,2)] last
    by simp
qed

lemma fetch_data_exhausted:
  assumes "\<forall>k. \<not> flag k" "\<forall>a<5. net a = RequestException"
  shows "fetch_data flag net b i
     = (Inr None,
        [Post b, LogWarning (i + 1) 1, Sleep 2, Post b, LogWarning (i + 1) 2, Sleep 4,
         Post b, LogWarning (i + 1) 3, Sleep 8, Post b, LogWarning (i + 1) 4, Sleep 16,
         Post b, LogWarning (i + 1) 5, LogError (i + 1)])"
proof -
  from assms have last: "attempts_loop flag net b i [4]
      = (Inr None, [Post b, LogWarning (i + 1) 5, LogError (i + 1)])"
    by simp
  from assms(2) have four: "\<forall>a<4. net a = RequestException" by simp
  from assms(1) have nf: "\<not> flag 0" by simp
  show ?thesis
    unfolding fetch_data_started [of flag, OF nf] attempts_loop_four_failures [of flag net, OF assms(1) four] last
    by simp
qed


text \<open>
  C2: a fetch makes at most 5 attempts and sleeps 2, 4, 8, 16 seconds between consecutive
  attempts (\<open>2 ^ attempt * 2\<close>); the delays of any run are an initial part of that
  list. With no cancellation, four failed attempts and a fifth that succeeds return the
  parsed body, and five failed attempts return \<open>None\<close> after exactly five posts; in both
  cases the value is returned (\<open>Inr\<close>), no exception leaves \<open>fetch_data\<close>.
\<close>

theorem fetch_data_retry:
  "length (filter is_post (snd (fetch_data flag net batch index))) \<le> 5
   \<and> (\<exists>k\<le>4. sleeps (snd (fetch_data flag net batch index)) = take k [2, 4, 8, 16])
   \<and> ((\<forall>k. \<not> flag k) \<and> (\<forall>a<4. net a = RequestException) \<and> net 4 = Reply data \<longrightarrow>
        fetch_data flag net batch index
          = (Inr (Some data),
             [Post batch, LogWarning (index + 1) 1, Sleep 2,
              Post batch, LogWarning (index + 1) 2, Sleep 4,
              Post batch, LogWarning (index + 1) 3, Sleep 8,
              Post batch, LogWarning (index + 1) 4, Sleep 16,
              Post batch]))
   \<and> ((\<forall>k. \<not> flag k) \<and> (\<forall>a<5. net a = RequestException) \<longrightarrow>
        fetch_data flag net batch index
          = (Inr None,
             [Post batch, LogWarning (index + 1) 1, Sleep 2,
              Post batch, LogWarning (index + 1) 2, Sleep 4,
              Post batch, LogWarning (index + 1) 3, Sleep 8,
              Post batch, LogWarning (index + 1) 4, Sleep 16,
              Post batch, LogWarning (index + 1) 5, LogError (index + 1)]))"
  using fetch_data_posts [of flag net batch index] fetch_data_sleeps [of flag net batch index]
    fetch_data_fifth [of flag net data batch index] fetch_data_exhausted [of flag net batch index]
  by blast

theorem fetch_data_retry_witness:
  "fetch_data (\<lambda>k. False)
      (\<lambda>a. if a < 4 then RequestException
            else Reply [\<lparr>employeeAt = Some [str ''a.com''], clientAt = None\<rparr>])
      [str ''a.com''] 0
     = (Inr (Some [\<lparr>employeeAt = Some [str ''a.com''], clientAt = None\<rparr>]),
        [Post [str ''a.com''], LogWarning 1 1, Sleep 2,
         Post [str ''a.com''], LogWarning 1 2, Sleep 4,
         Post [str ''a.com''], LogWarning 1 3, Sleep 8,
         Post [str ''a.com''], LogWarning 1 4, Sleep 16,
         Post [str ''a.com'']])
   \<and> fetch_data (\<lambda>k. False) (\<lambda>a. RequestException) [str ''a.com''] 0
     = (Inr None,
        [Post [str ''a.com''], LogWarning 1 1, Sleep 2,
         Post [str ''a.com''], LogWarning 1 2, Sleep 4,
         Post [str ''a.com''], LogWarning 1 3, Sleep 8,
         Post [str ''a.com''], LogWarning 1 4, Sleep 16,
         Post [str ''a.com''], LogWarning 1 5, LogError 1])"
  using fetch_data_retry [of "\<lambda>k. False"
      "\<lambda>a. if a < 4 then RequestException
            else Reply [\<lparr>employeeAt = Some [str ''a.com''], clientAt = None\<rparr>]"
      "[str ''a.com'']" 0 "[\<lparr>employeeAt = Some [str ''a.com''], clientAt = None\<rparr>]"]
    fetch_data_retry [of "\<lambda>k. False" "\<lambda>a. RequestException" "[str ''a.com'']" 0]
  by simp

text \<open>
  C7 (as stated): the result of a fetch tells an exhausted-retry failure from a
  cancellation. A fetch cancelled before its first attempt and a fetch whose five
  attempts fail return the same value, \<open>None\<close>.
\<close>

theorem fetch_data_none_twice:
  "fst (fetch_data (\<lambda>k. True) (\<lambda>a. RequestException) [str ''a.com''] 0) = Inr None
   \<and> fst (fetch_data (\<lambda>k. False) (\<lambda>a. RequestException) [str ''a.com''] 0) = Inr None"
  by (simp add: fetch_data_cancelled fetch_data_exhausted)

lemma attempts_loop_cases:
  "fst (attempts_loop flag net b i as) = Inr None
   \<or> (\<exists>a\<in>set as. \<exists>data. net a = Reply data
          \<and> fst (attempts_loop flag net b i as) = Inr (Some data))
   \<or> (\<exists>a\<in>set as. net a = OtherException \<and> fst (attempts_loop flag net b i as) = Inl Raised)"
proof (induction as)
  case Nil
  then show ?case by simp
next
  case (Cons x as)
  show ?case
  proof (cases "\<not> flag (x + 1) \<and> net x = RequestException \<and> x \<noteq> 4")
    case True
    then have "fst (attempts_loop flag net b i (x # as)) = fst (attempts_loop flag net b i as)"
      by (simp add: attempts_loop_retry del: attempts_loop.simps)
    with Cons.IH show ?thesis by auto
  next
    case False
    then show ?thesis by (cases "net x") auto
  qed
qed

lemma attempts_loop_all_fail:
  "\<forall>a\<in>set as. net a = RequestException \<Longrightarrow> fst (attempts_loop flag net b i as) = Inr None"
  by (induction as) (auto simp: case_prod_beta)

lemma attempts_loop_cancelled:
  "sorted as \<Longrightarrow> a \<in> set as \<Longrightarrow> flag (a + 1) \<Longrightarrow> \<forall>a'<a. net a' = RequestException
     \<Longrightarrow> fst (attempts_loop flag net b i as) = Inr None"
proof (induction as)
  case Nil
  then show ?case by simp
next
  case (Cons x as)
  show ?case
  proof (cases "flag (x + 1) \<or> x = 4")
    case True
    moreover have "net x = RequestException" if "x = 4" "\<not> flag (x + 1)"
    proof -
      from that Cons.prems(2,3) have "a \<noteq> x" by auto
      with Cons.prems(1,2) have "x < a" by auto
      with Cons.prems(4) show ?thesis by simp
    qed
    ultimately show ?thesis by auto
  next
    case False
    with Cons.prems(2,3) have ax: "a \<noteq> x" by auto
    with Cons.prems(1,2) have "x < a" and as: "a \<in> set as" "sorted as" by auto
    with Cons.prems(4) have "net x = RequestException" by simp
    with False have "fst (attempts_loop flag net b i (x # as)) = fst (attempts_loop flag net b i as)"
      by (simp add: attempts_loop_retry del: attempts_loop.simps)
    with Cons.IH [OF as(2,1) Cons.prems(3,4)] show ?thesis by simp
  qed
qed

lemma fetch_data_cases:
  "fst (fetch_data flag net b i) = Inr None
   \<or> (\<exists>a<5. \<exists>data. net a = Reply data \<and> fst (fetch_data flag net b i) = Inr (Some data))
   \<or> (\<exists>a<5. net a = OtherException \<and> fst (fetch_data flag net b i) = Inl Raised)"
proof (cases "flag 0")
  case True
  then show ?thesis by (simp add: fetch_data_cancelled)
next
  case False
  have "a < 5" if "a \<in> set [0, 1, 2, 3, 4]" for a :: nat using that by auto
  with attempts_loop_cases [of flag net b i "[0, 1, 2, 3, 4]"] show ?thesis
    unfolding fetch_data_started [of flag, OF False] by blast
qed

lemma fetch_data_all_fail:
  assumes "\<forall>a<5. net a = RequestException"
  shows "fst (fetch_data flag net b i) = Inr None"
proof (cases "flag 0")
  case True
  then show ?thesis by (simp add: fetch_data_cancelled)
next
  case False
  from assms have "\<forall>a\<in>set [0, 1, 2, 3, 4]. net a = RequestException" by auto
  from attempts_loop_all_fail [OF this] show ?thesis
    unfolding fetch_data_started [of flag, OF False] .
qed

lemma fetch_data_flag_read:
  assumes "flag k" "k \<le> 5" "\<forall>a. a + 1 < k \<longrightarrow> net a = RequestException"
  shows "fst (fetch_data flag net b i) = Inr None"
proof (cases "flag 0")
  case True
  then show ?thesis by (simp add: fetch_data_cancelled)
next
  case False
  with assms(1) have "k \<noteq> 0" by (cases "k = 0") simp_all
  then obtain a where a: "k = a + 1" by (cases k) auto
  with assms(2) have m: "a \<in> set [0, 1, 2, 3, 4]" by auto
  have s: "sorted [0, 1, 2, 3, 4 :: nat]" by simp
  from assms(1) a have f: "flag (a + 1)" by simp
  from assms(3) a have n: "\<forall>a'<a. net a' = RequestException" by simp
  have "fst (attempts_loop flag net b i [0, 1, 2, 3, 4]) = Inr None"
    by (rule attempts_loop_cancelled [of _ a flag, OF s m f n])
  then show ?thesis unfolding fetch_data_started [of flag, OF False] .
qed


text \<open>
  C7 (amended): a fetch that returns gives the response records of an attempt that
  succeeded, or \<open>None\<close>; the only other end is an exception that is not a request
  failure, which escapes. A cancellation returns \<open>None\<close>, at the check before the loop
  (then without any network call) and at the check at the head of any attempt reached
  through failed attempts; five failed attempts return \<open>None\<close> as well, whatever the
  flag. So the returned value does not tell a cancellation from an exhausted retry.
\<close>

theorem fetch_data_outcomes:
  "(fst (fetch_data flag net batch index) = Inr None
     \<or> (\<exists>a<5. \<exists>data. net a = Reply data
            \<and> fst (fetch_data flag net batch index) = Inr (Some data))
     \<or> (\<exists>a<5. net a = OtherException \<and> fst (fetch_data flag net batch index) = Inl Raised))
   \<and> (flag 0 \<longrightarrow> fetch_data flag net batch index = (Inr None, []))
   \<and> (\<forall>k\<le>5. flag k \<and> (\<forall>a. a + 1 < k \<longrightarrow> net a = RequestException) \<longrightarrow>
          fst (fetch_data flag net batch index) = Inr None)
   \<and> ((\<forall>a<5. net a = RequestException) \<longrightarrow> fst (fetch_data flag net batch index) = Inr None)"
  using fetch_data_cases [of flag net batch index]
    fetch_data_cancelled [of flag net batch index]
    fetch_data_flag_read [of flag _ net batch index]
    fetch_data_all_fail [of net flag batch index]
  by blast

theorem fetch_data_outcomes_witness:
  "fetch_data (\<lambda>k. True) (\<lambda>a. RequestException) [str ''a.com''] 0 = (Inr None, [])
   \<and> fst (fetch_data (\<lambda>k. k = 2)
        (\<lambda>a. if a = 0 then RequestException
              else Reply [\<lparr>employeeAt = Some [str ''a.com''], clientAt = None\<rparr>])
        [str ''a.com''] 0) = Inr None
   \<and> fst (fetch_data (\<lambda>k. False) (\<lambda>a. RequestException) [str ''a.com''] 0) = Inr None"
proof -
  let ?net = "\<lambda>a::nat. if a = 0 then RequestException
              else Reply [\<lparr>employeeAt = Some [str ''a.com''], clientAt = None\<rparr>]"
  have "fetch_data (\<lambda>k. True) (\<lambda>a. RequestException) [str ''a.com''] 0 = (Inr None, [])"
    using fetch_data_outcomes [of "\<lambda>k. True" "\<lambda>a. RequestException" "[str ''a.com'']" 0]
    by simp
  moreover have "fst (fetch_data (\<lambda>k. False) (\<lambda>a. RequestException) [str ''a.com''] 0) = Inr None"
    using fetch_data_outcomes [of "\<lambda>k. False" "\<lambda>a. RequestException" "[str ''a.com'']" 0]
    by simp
  moreover have "fst (fetch_data (\<lambda>k. k = 2) ?net [str ''a.com''] 0) = Inr None"
  proof -
    from fetch_data_outcomes [of "\<lambda>k. k = 2" ?net "[str ''a.com'']" 0]
    have "\<forall>k\<le>5. k = 2 \<and> (\<forall>a. a + 1 < k \<longrightarrow> ?net a = RequestException) \<longrightarrow>
          fst (fetch_data (\<lambda>k. k = 2) ?net [str ''a.com''] 0) = Inr None"
      by blast
    from this [rule_format, of 2] show ?thesis by simp
  qed
  ultimately show ?thesis by blast
qed


section \<open>Aggregation\<close>

lemma selected_domains_eq:
  "selected_domains item =
     (if present_nonempty (employeeAt item) then the (employeeAt item)
      else if present_nonempty (clientAt item) then the (clientAt item)
      else [])"
  by (simp add: selected_domains_def present_nonempty_def split: option.splits list.splits)

lemma absorb_item_selected:
  "absorb_item valid item results = results \<union> {d \<in> valid. d \<in> set (selected_domains item)}"
  by (auto simp: absorb_item_def selected_domains_eq)

lemma fold_absorb_item:
  "fold (absorb_item valid) items results
     = results \<union> {d \<in> valid. \<exists>item\<in>set items. d \<in> set (selected_domains item)}"
proof (induction items arbitrary: results)
  case Nil
  then show ?case by simp
next
  case (Cons item items)
  have "fold (absorb_item valid) (item # items) results
      = fold (absorb_item valid) items (absorb_item valid item results)"
    by simp
  also have "\<dots> = absorb_item valid item results
      \<union> {d \<in> valid. \<exists>item\<in>set items. d \<in> set (selected_domains item)}"
    by (rule Cons.IH)
  also have "\<dots> = results
      \<union> {d \<in> valid. \<exists>item\<in>set (item # items). d \<in> set (selected_domains item)}"
    unfolding absorb_item_selected by auto
  finally show ?case .
qed

lemma absorb_Some:
  "absorb valid (Some items) results
     = results \<union> {d \<in> valid. \<exists>item\<in>set items. d \<in> set (selected_domains item)}"
  by (simp add: absorb_def fold_absorb_item)

lemma absorb_subset: "results \<subseteq> valid \<Longrightarrow> absorb valid data results \<subseteq> valid"
  by (cases data) (auto simp: absorb_def fold_absorb_item)

lemma collect_subset:
  "results \<subseteq> valid \<Longrightarrow> collect valid futures results = Inr final \<Longrightarrow> final \<subseteq> valid"
proof (induction futures arbitrary: results)
  case Nil
  then show ?case by simp
next
  case (Cons f futures)
  obtain is_set res where f: "f = (is_set, res)" by (cases f)
  show ?case
  proof (cases is_set)
    case True
    with Cons.prems f show ?thesis by simp
  next
    case False
    with Cons.prems f obtain data where res: "res = Inr data"
      and c: "collect valid futures (absorb valid data results) = Inr final"
      by (cases res) auto
    from Cons.prems(1) have "absorb valid data results \<subseteq> valid" by (rule absorb_subset)
    from Cons.IH [OF this c] show ?thesis .
  qed
qed

text \<open>
  C1: a successful outcome adds to the result set exactly the domains of the validated
  set that are listed, record by record, under the relation the selection rule picks
  (\<open>selected_domains\<close>); an outcome \<open>None\<close> (failed or cancelled) adds nothing; and the
  set collected from any sequence of outcomes holds only domains of the validated set.
\<close>

theorem absorb_filters_selected:
  "absorb valid (Some items) results
     = results \<union> {d \<in> valid. \<exists>item\<in>set items. d \<in> set (selected_domains item)}
   \<and> absorb valid None results = results
   \<and> (collect valid futures {} = Inr final \<longrightarrow> final \<subseteq> valid)"
  using collect_subset [of "{}" valid futures final]
  by (simp add: absorb_Some) (simp add: absorb_def)

theorem absorb_filters_selected_witness:
  "absorb {str ''a.com'', str ''b.com''}
      (Some [\<lparr>employeeAt = Some [str ''a.com'', str ''z.com''], clientAt = Some [str ''b.com'']\<rparr>])
      {}
     = {str ''a.com''}
   \<and> collect {str ''a.com'', str ''b.com''}
        [(False, Inr (Some [\<lparr>employeeAt = Some [str ''a.com'', str ''z.com''],
                               clientAt = Some [str ''b.com'']\<rparr>])),
         (False, Inr None)] {}
     = Inr {str ''a.com''}
   \<and> {str ''a.com''} \<subseteq> {str ''a.com'', str ''b.com''}"
proof -
  have z: "str ''z.com'' \<noteq> str ''a.com''" "str ''z.com'' \<noteq> str ''b.com''"
    by (simp_all add: str_def)
  have c: "collect {str ''a.com'', str ''b.com''}
        [(False, Inr (Some [\<lparr>employeeAt = Some [str ''a.com'', str ''z.com''],
                               clientAt = Some [str ''b.com'']\<rparr>])),
         (False, Inr None)] {}
     = Inr {str ''a.com''}"
    using z by (simp add: absorb_def absorb_item_def present_nonempty_def)
  from absorb_filters_selected [of "{str ''a.com'', str ''b.com''}"
      "[\<lparr>employeeAt = Some [str ''a.com'', str ''z.com''], clientAt = Some [str ''b.com'']\<rparr>]"
      "{}" "[(False, Inr (Some [\<lparr>employeeAt = Some [str ''a.com'', str ''z.com''],
                               clientAt = Some [str ''b.com'']\<rparr>])),
         (False, Inr None)]" "{str ''a.com''}"] c z
  show ?thesis by (auto simp: selected_domains_def)
qed

section \<open>Cancellation\<close>

lemma collect_all_set:
  "\<forall>f\<in>set futures. fst f \<Longrightarrow> collect valid futures results = Inr results"
  by (cases futures) auto

text \<open>
  C6: when the flag is set before dispatch starts (the code never clears it, so every
  later reading is true), the run returns the empty result set for every list of domains,
  and its trace is empty: no network call is attempted.
\<close>

theorem main_cancelled_before_dispatch:
  assumes "\<forall>i k. fetch_flag i k" and "\<forall>k. loop_flag k"
  shows "main domain_list fetch_flag net completion loop_flag = (Inr {}, [])"
proof -
  have "\<forall>f\<in>set (map (\<lambda>(k, i). (loop_flag k, r i)) (enumerate 0 completion)). fst f" for r :: "nat \<Rightarrow> fetch_result"
    using assms(2) by auto
  then have c: "collect valid (map (\<lambda>(k, i). (loop_flag k, r i)) (enumerate 0 completion)) {} = Inr {}"
    for r :: "nat \<Rightarrow> fetch_result" and valid
    by (rule collect_all_set)
  have "concat (map snd (map (\<lambda>i. fetch_data (fetch_flag i) (net i) (batches domain_list ! i) i)
          [0..<length (batches domain_list)])) = []"
    using assms(1) by (simp add: fetch_data_cancelled)
  then show ?thesis
    unfolding main_def Let_def by (simp only: c)
qed

theorem main_cancelled_before_dispatch_witness:
  "main [str ''a.com'', str ''b.com''] (\<lambda>i k. True)
      (\<lambda>i a. Reply [\<lparr>employeeAt = Some [str ''a.com''], clientAt = None\<rparr>]) [0] (\<lambda>k. True)
     = (Inr {}, [])"
  using main_cancelled_before_dispatch [of "\<lambda>i k. True" "\<lambda>k. True"] by simp

text \<open>
  C10: once the collecting loop reads the flag as set, the result set is final: the
  outcome at hand and all later ones are dropped, whatever they carry.
\<close>

theorem collect_stops_at_flag:
  "collect valid (before @ (True, res) # later) results = collect valid before results"
  by (induction before arbitrary: results) (auto split: sum.splits)

theorem collect_stops_at_flag_witness:
  "collect {str ''a.com'', str ''b.com''}
      ([(False, Inr (Some [\<lparr>employeeAt = Some [str ''a.com''], clientAt = None\<rparr>]))]
         @ (True, Inr None)
         # [(False, Inr (Some [\<lparr>employeeAt = Some [str ''b.com''], clientAt = None\<rparr>]))]) {}
     = Inr {str ''a.com''}"
  unfolding collect_stops_at_flag
  by (simp add: absorb_def absorb_item_def present_nonempty_def)


section \<open>Properties of the cleaning function\<close>

lemma startswith_www_shorter:
  "startswith s (str ''www.'') \<Longrightarrow> length (drop 4 s) < length s"
  by (cases s) (auto simp: startswith_def str_def)

lemma endswith_dot_shorter:
  "endswith s (str ''.'') \<Longrightarrow> length (take (length s - 1) s) < length s"
  by (cases s) (auto simp: endswith_def str_def)

lemma clean_domain_fixed:
  "\<not> startswith s (str ''www.'') \<Longrightarrow> \<not> endswith s (str ''.'') \<Longrightarrow> clean_domain s = s"
  by (simp add: clean_domain_def)

lemma clean_domain_shrinks_www:
  "startswith s (str ''www.'') \<Longrightarrow> length (clean_domain s) < length s"
  using startswith_www_shorter [of s]
  by (auto simp: clean_domain_def Let_def)

lemma clean_domain_shrinks_dot:
  assumes "endswith s (str ''.'')"
  shows "length (clean_domain s) < length s"
proof (cases "startswith s (str ''www.'')")
  case True
  then show ?thesis by (rule clean_domain_shrinks_www)
next
  case False
  with assms endswith_dot_shorter [of s] show ?thesis
    by (simp add: clean_domain_def)
qed

text \<open>
  C3 (as stated): the normalizer is idempotent for every string. The code strips one
  leading \<open>www.\<close> and one trailing dot only, so a second pass strips again on
  \<open>www.www.a.com\<close>.
\<close>

theorem clean_domain_not_idempotent:
  "clean_domain (clean_domain (str ''www.www.a.com'')) \<noteq> clean_domain (str ''www.www.a.com'')"
  by (simp add: clean_domain_def str_def startswith_def endswith_def)

text \<open>
  C3 (amended): a second pass of \<open>clean_domain\<close> changes nothing exactly when the first
  pass left neither a leading \<open>www.\<close> nor a trailing dot, and
  \<open>www.example.com.\<close> is cleaned to \<open>example.com\<close>, on which a second pass changes
  nothing.
\<close>

theorem clean_domain_idempotent_iff:
  "((clean_domain (clean_domain d) = clean_domain d) =
      (\<not> startswith (clean_domain d) (str ''www.'') \<and> \<not> endswith (clean_domain d) (str ''.'')))
   \<and> clean_domain (str ''www.example.com.'') = str ''example.com''
   \<and> clean_domain (clean_domain (str ''www.example.com.'')) = clean_domain (str ''www.example.com.'')"
proof -
  have "(clean_domain (clean_domain d) = clean_domain d) =
     (\<not> startswith (clean_domain d) (str ''www.'') \<and> \<not> endswith (clean_domain d) (str ''.''))"
    using clean_domain_fixed [of "clean_domain d"]
      clean_domain_shrinks_www [of "clean_domain d"]
      clean_domain_shrinks_dot [of "clean_domain d"]
    by auto
  moreover have "clean_domain (str ''www.example.com.'') = str ''example.com''"
    by (simp add: clean_domain_def str_def startswith_def endswith_def)
  moreover have "clean_domain (clean_domain (str ''www.example.com.'')) = clean_domain (str ''www.example.com.'')"
    by (simp add: clean_domain_def str_def startswith_def endswith_def)
  ultimately show ?thesis by blast
qed

theorem clean_domain_idempotent_iff_witness:
  "clean_domain (clean_domain (str ''a.com.'')) = clean_domain (str ''a.com.'')
   \<and> \<not> startswith (clean_domain (str ''a.com.'')) (str ''www.'')
   \<and> \<not> endswith (clean_domain (str ''a.com.'')) (str ''.'')"
proof -
  have "\<not> startswith (clean_domain (str ''a.com.'')) (str ''www.'')
     \<and> \<not> endswith (clean_domain (str ''a.com.'')) (str ''.'')"
    by (simp add: clean_domain_def str_def startswith_def endswith_def)
  with clean_domain_idempotent_iff [of "str ''a.com.''"] show ?thesis by simp
qed

end
